theory Spec2Isabelle
  imports Main "HOL-Library.Word"
begin

section \<open>The s2list package: nodes, list bases and iterators on an explicit heap\<close>

text \<open>
  The Go package links \<^verbatim>\<open>List_node\<close>, \<^verbatim>\<open>List_base\<close> and
  \<^verbatim>\<open>List_iter\<close> structs by pointers and mutates them in place. Several
  pointers may name the same struct, so the model keeps one store per struct type, indexed
  by addresses (natural numbers). A pointer is an address or \<open>None\<close> for
  \<^verbatim>\<open>nil\<close>. Every method takes its receiver pointer, its arguments and the
  heap, and returns its Go results together with the heap after the call.
\<close>

subsection \<open>Errors of the elist package\<close>

text \<open>
  The package \<^verbatim>\<open>elist\<close> is an external library. Only its two constructors
  are used: \<^verbatim>\<open>elist.New(msg)\<close> and \<^verbatim>\<open>elist.Push(E, msg)\<close>.
  A Go \<^verbatim>\<open>error\<close> result is an \<open>error option\<close>, with \<open>None\<close> for
  \<^verbatim>\<open>nil\<close>.
\<close>

datatype error = New string | Push error string

subsection \<open>The three structs and the heap\<close>

text \<open>The payload \<^verbatim>\<open>interface{}\<close> is a value of type \<open>'v\<close>, or
  \<open>None\<close> for the nil interface.\<close>

record 'v List_node =
  node_next :: "nat option"
  node_base :: "nat option"
  node_value :: "'v option"

record List_base =
  base_first :: "nat option"
  base_last :: "nat option"

record List_iter =
  iter_base :: "nat option"
  iter_current :: "nat option"

text \<open>
  \<open>node_top\<close> is the allocation mark of \<^verbatim>\<open>new(List_node)\<close>: the nodes
  handed out so far are the addresses below it.
\<close>

record 'v heap =
  nodes :: "nat \<Rightarrow> 'v List_node"
  bases :: "nat \<Rightarrow> List_base"
  iters :: "nat \<Rightarrow> List_iter"
  node_top :: nat

text \<open>The counters of \<^verbatim>\<open>Length\<close> and \<^verbatim>\<open>ValidLength\<close> are Go
  \<^verbatim>\<open>int\<close>s, taken here at 64 bits: adding 1 wraps around.\<close>

type_synonym go_int = "64 word"

definition zero_node :: "'v List_node" where
  "zero_node = \<lparr>node_next = None, node_base = None, node_value = None\<rparr>"

definition zero_base :: List_base where
  "zero_base = \<lparr>base_first = None, base_last = None\<rparr>"

definition zero_iter :: List_iter where
  "zero_iter = \<lparr>iter_base = None, iter_current = None\<rparr>"

text \<open>The heap of a program that has allocated no node and touched no base or iterator:
  every struct has its zero value.\<close>

definition heap0 :: "'v heap" where
  "heap0 = \<lparr>nodes = (\<lambda>_. zero_node), bases = (\<lambda>_. zero_base),
             iters = (\<lambda>_. zero_iter), node_top = 0\<rparr>"

definition upd_node :: "nat \<Rightarrow> ('v List_node \<Rightarrow> 'v List_node) \<Rightarrow> 'v heap \<Rightarrow> 'v heap" where
  "upd_node n f h = h\<lparr>nodes := (nodes h)(n := f (nodes h n))\<rparr>"

definition upd_base :: "nat \<Rightarrow> (List_base \<Rightarrow> List_base) \<Rightarrow> 'v heap \<Rightarrow> 'v heap" where
  "upd_base b f h = h\<lparr>bases := (bases h)(b := f (bases h b))\<rparr>"

definition upd_iter :: "nat \<Rightarrow> (List_iter \<Rightarrow> List_iter) \<Rightarrow> 'v heap \<Rightarrow> 'v heap" where
  "upd_iter i f h = h\<lparr>iters := (iters h)(i := f (iters h i))\<rparr>"

text \<open>\<^verbatim>\<open>new(List_node)\<close>: the next free address, holding a zero node.\<close>

definition new_List_node :: "'v heap \<Rightarrow> nat \<times> 'v heap" where
  "new_List_node h =
     (node_top h, h\<lparr>nodes := (nodes h)(node_top h := zero_node), node_top := Suc (node_top h)\<rparr>)"

subsection \<open>List\_node methods\<close>

definition GetNext :: "nat option \<Rightarrow> 'v heap \<Rightarrow> nat option \<times> error option" where
  "GetNext p h =
     (case p of
        None \<Rightarrow> (None, Some (New ''List_node::GetNext: p == nil''))
      | Some n \<Rightarrow> (node_next (nodes h n), None))"

definition unlink :: "nat option \<Rightarrow> 'v heap \<Rightarrow> error option \<times> 'v heap" where
  "unlink p h =
     (case p of
        None \<Rightarrow> (Some (New ''List_node::unlink: p == nil''), h)
      | Some n \<Rightarrow>
          (let h1 = upd_node n (\<lambda>x. x\<lparr>node_next := None\<rparr>) h;
               h2 = upd_node n (\<lambda>x. x\<lparr>node_base := None\<rparr>) h1
           in (None, h2)))"

definition SetValue :: "nat option \<Rightarrow> 'v option \<Rightarrow> 'v heap \<Rightarrow> error option \<times> 'v heap" where
  "SetValue p v h =
     (case p of
        None \<Rightarrow> (Some (New ''List_node::SetValue: p == nil''), h)
      | Some n \<Rightarrow> (None, upd_node n (\<lambda>x. x\<lparr>node_value := v\<rparr>) h))"

definition GetValue :: "nat option \<Rightarrow> 'v heap \<Rightarrow> 'v option \<times> error option" where
  "GetValue p h =
     (case p of
        None \<Rightarrow> (None, Some (New ''List_node::GetValue: p == nil''))
      | Some n \<Rightarrow> (node_value (nodes h n), None))"

subsection \<open>List\_base methods\<close>

definition Empty :: "nat option \<Rightarrow> 'v heap \<Rightarrow> bool" where
  "Empty p h =
     (case p of
        None \<Rightarrow> True
      | Some b \<Rightarrow> if base_first (bases h b) = None then True else False)"

definition GetFirst :: "nat option \<Rightarrow> 'v heap \<Rightarrow> nat option" where
  "GetFirst p h = (case p of None \<Rightarrow> None | Some b \<Rightarrow> base_first (bases h b))"

text \<open>
  The loops of the package follow \<^verbatim>\<open>next\<close> pointers until they meet
  \<^verbatim>\<open>nil\<close>; on a chain that never ends they do not return. Each is a partial
  function into \<open>option\<close>: \<open>None\<close> is a call that never returns.
\<close>

partial_function (option) Length_loop :: "'v heap \<Rightarrow> nat option \<Rightarrow> go_int \<Rightarrow> go_int option" where
  "Length_loop h q n =
     (case q of
        None \<Rightarrow> Some n
      | Some a \<Rightarrow> Length_loop h (node_next (nodes h a)) (n + 1))"

definition Length :: "nat option \<Rightarrow> 'v heap \<Rightarrow> go_int option" where
  "Length p h =
     (case p of
        None \<Rightarrow> Some 0
      | Some b \<Rightarrow>
          if base_first (bases h b) \<noteq> None \<and> base_last (bases h b) \<noteq> None
          then Length_loop h (base_first (bases h b)) 0
          else Some 0)"

partial_function (option) ValidLength_loop ::
  "'v heap \<Rightarrow> nat \<Rightarrow> nat option \<Rightarrow> go_int \<times> go_int \<times> go_int \<Rightarrow> (go_int \<times> go_int \<times> go_int) option"
where
  "ValidLength_loop h b q acc =
     (case q of
        None \<Rightarrow> Some acc
      | Some a \<Rightarrow>
          ValidLength_loop h b (node_next (nodes h a))
            (case acc of (n_nil, n_wrong, n_total) \<Rightarrow>
               if node_base (nodes h a) = None then (n_nil + 1, n_wrong, n_total + 1)
               else if node_base (nodes h a) \<noteq> Some b then (n_nil, n_wrong + 1, n_total + 1)
               else (n_nil, n_wrong, n_total + 1)))"

definition ValidLength :: "nat option \<Rightarrow> 'v heap \<Rightarrow> (go_int \<times> go_int \<times> go_int) option" where
  "ValidLength p h =
     (case p of
        None \<Rightarrow> Some (0, 0, 0)
      | Some b \<Rightarrow>
          if base_first (bases h b) = None \<or> base_last (bases h b) = None
          then Some (0, 0, 0)
          else ValidLength_loop h b (base_first (bases h b)) (0, 0, 0))"

definition Append :: "nat option \<Rightarrow> nat option \<Rightarrow> 'v heap \<Rightarrow> error option \<times> 'v heap" where
  "Append p pnode h =
     (case p of
        None \<Rightarrow> (Some (New ''List_base::Append: p == nil''), h)
      | Some b \<Rightarrow>
          (case pnode of
             None \<Rightarrow> (None, h)
           | Some n \<Rightarrow>
               if node_base (nodes h n) \<noteq> None
               then (Some (New ''List_base::Append: pnode.base != nil''), h)
               else
                 (let h1 = upd_node n (\<lambda>x. x\<lparr>node_base := Some b\<rparr>) h;
                      h2 = upd_node n (\<lambda>x. x\<lparr>node_next := None\<rparr>) h1;
                      h3 = (case base_last (bases h2 b) of
                              Some l \<Rightarrow> upd_node l (\<lambda>x. x\<lparr>node_next := Some n\<rparr>) h2
                            | None \<Rightarrow> upd_base b (\<lambda>x. x\<lparr>base_first := Some n\<rparr>) h2);
                      h4 = upd_base b (\<lambda>x. x\<lparr>base_last := Some n\<rparr>) h3
                  in (None, h4))))"

definition AppendValue :: "nat option \<Rightarrow> 'v option \<Rightarrow> 'v heap \<Rightarrow> error option \<times> 'v heap" where
  "AppendValue p v h =
     (case p of
        None \<Rightarrow> (Some (New ''List_base::AppendValue: p == nil''), h)
      | Some b \<Rightarrow>
          (case new_List_node h of (pnode, h1) \<Rightarrow>
             (case SetValue (Some pnode) v h1 of
                (Some e, h2) \<Rightarrow> (Some (Push e ''List_base::AppendValue: pnode.SetValue(v)''), h2)
              | (None, h2) \<Rightarrow>
                  (case Append p (Some pnode) h2 of
                     (Some e, h3) \<Rightarrow> (Some (Push e ''List_base::AppendValue: p.Append(pnode)''), h3)
                   | (None, h3) \<Rightarrow> (None, h3)))))"

definition Prepend :: "nat option \<Rightarrow> nat option \<Rightarrow> 'v heap \<Rightarrow> error option \<times> 'v heap" where
  "Prepend p pnode h =
     (case p of
        None \<Rightarrow> (Some (New ''List_base::Prepend: p == nil''), h)
      | Some b \<Rightarrow>
          (case pnode of
             None \<Rightarrow> (None, h)
           | Some n \<Rightarrow>
               if node_base (nodes h n) \<noteq> None
               then (Some (New ''List_base::Prepend: pnode.base != nil''), h)
               else
                 (let h1 = upd_node n (\<lambda>x. x\<lparr>node_base := Some b\<rparr>) h;
                      h2 = upd_node n (\<lambda>x. x\<lparr>node_next := base_first (bases h1 b)\<rparr>) h1;
                      h3 = upd_base b (\<lambda>x. x\<lparr>base_first := Some n\<rparr>) h2;
                      h4 = (if base_last (bases h3 b) = None
                            then upd_base b (\<lambda>x. x\<lparr>base_last := Some n\<rparr>) h3
                            else h3)
                  in (None, h4))))"

definition PrependValue :: "nat option \<Rightarrow> 'v option \<Rightarrow> 'v heap \<Rightarrow> error option \<times> 'v heap" where
  "PrependValue p v h =
     (case p of
        None \<Rightarrow> (Some (New ''List_base::PrependValue: p == nil''), h)
      | Some b \<Rightarrow>
          (case new_List_node h of (pnode, h1) \<Rightarrow>
             (case SetValue (Some pnode) v h1 of
                (Some e, h2) \<Rightarrow> (Some (Push e ''List_base::PrependValue: pnode.SetValue(v)''), h2)
              | (None, h2) \<Rightarrow>
                  (case Prepend p (Some pnode) h2 of
                     (Some e, h3) \<Rightarrow> (Some (Push e ''List_base::PrependValue: p.Prepend(pnode)''), h3)
                   | (None, h3) \<Rightarrow> (None, h3)))))"

text \<open>The shared tail of \<^verbatim>\<open>Popfirst\<close> and of one round of the loop of
  \<^verbatim>\<open>Clear\<close>, which the source writes out twice: with \<open>f\<close> the first node,
  clear \<^verbatim>\<open>last\<close> if it is the first node, move \<^verbatim>\<open>first\<close> to the
  successor of \<open>f\<close>, and unlink \<open>f\<close>.\<close>

definition pop_head :: "nat \<Rightarrow> nat \<Rightarrow> 'v heap \<Rightarrow> 'v heap" where
  "pop_head b f h =
     (let h1 = (if base_last (bases h b) = base_first (bases h b)
                then upd_base b (\<lambda>x. x\<lparr>base_last := None\<rparr>) h
                else h);
          h2 = upd_base b (\<lambda>x. x\<lparr>base_first := node_next (nodes h1 f)\<rparr>) h1
      in snd (unlink (Some f) h2))"

definition Popfirst :: "nat option \<Rightarrow> 'v heap \<Rightarrow> (nat option \<times> error option) \<times> 'v heap" where
  "Popfirst p h =
     (case p of
        None \<Rightarrow> ((None, Some (New ''List_base::Popfirst: p == nil'')), h)
      | Some b \<Rightarrow>
          (case base_first (bases h b) of
             None \<Rightarrow> ((None, None), h)
           | Some f \<Rightarrow>
               if base_last (bases h b) = None
               then ((None, Some (New ''List_base::Popfirst: p.first != p.last == nil'')), h)
               else ((Some f, None), pop_head b f h)))"

text \<open>The scan of \<^verbatim>\<open>Poplast\<close> for the second-to-last node: the value of
  \<^verbatim>\<open>q\<close> when the loop is left, by \<^verbatim>\<open>break\<close> or at
  \<^verbatim>\<open>nil\<close>.\<close>

partial_function (option) Poplast_loop :: "'v heap \<Rightarrow> nat \<Rightarrow> nat option \<Rightarrow> nat option option" where
  "Poplast_loop h b q =
     (case q of
        None \<Rightarrow> Some None
      | Some a \<Rightarrow>
          if node_next (nodes h a) = base_last (bases h b) then Some (Some a)
          else Poplast_loop h b (node_next (nodes h a)))"

definition Poplast :: "nat option \<Rightarrow> 'v heap \<Rightarrow> ((nat option \<times> error option) \<times> 'v heap) option" where
  "Poplast p h =
     (case p of
        None \<Rightarrow> Some ((None, Some (New ''List_base::Poplast: p == nil'')), h)
      | Some b \<Rightarrow>
          (case base_first (bases h b) of
             None \<Rightarrow> Some ((None, None), h)
           | Some f \<Rightarrow>
               if base_last (bases h b) = None
               then Some ((None, Some (New ''List_base::Poplast: p.first != p.last == nil'')), h)
               else if base_last (bases h b) = base_first (bases h b)
               then
                 (let h1 = upd_base b (\<lambda>x. x\<lparr>base_first := None\<rparr>) h;
                      h2 = upd_base b (\<lambda>x. x\<lparr>base_last := None\<rparr>) h1
                  in Some ((Some f, None), snd (unlink (Some f) h2)))
               else
                 (case Poplast_loop h b (base_first (bases h b)) of
                    None \<Rightarrow> None
                  | Some None \<Rightarrow> Some ((None, Some (New ''List_base::Poplast: q == nil'')), h)
                  | Some (Some q) \<Rightarrow>
                      (let pnode = base_last (bases h b);
                           h1 = upd_node q (\<lambda>x. x\<lparr>node_next := None\<rparr>) h;
                           h2 = upd_base b (\<lambda>x. x\<lparr>base_last := Some q\<rparr>) h1
                       in Some ((pnode, None), snd (unlink pnode h2))))))"

partial_function (option) Found_loop :: "'v heap \<Rightarrow> nat \<Rightarrow> nat option \<Rightarrow> bool option" where
  "Found_loop h q pnode =
     (case pnode of
        None \<Rightarrow> Some False
      | Some a \<Rightarrow> if a = q then Some True else Found_loop h q (node_next (nodes h a)))"

definition Found :: "nat option \<Rightarrow> nat option \<Rightarrow> 'v heap \<Rightarrow> (bool \<times> error option) option" where
  "Found p q h =
     (case p of
        None \<Rightarrow> Some (False, Some (New ''List_base::Found: p == nil''))
      | Some b \<Rightarrow>
          (case q of
             None \<Rightarrow> Some (False, None)
           | Some n \<Rightarrow>
               if base_first (bases h b) = None then Some (False, None)
               else if base_last (bases h b) = None
               then Some (False, Some (New ''List_base::Found: p.first != p.last == nil''))
               else if node_base (nodes h n) \<noteq> Some b
               then Some (False, Some (New ''List_base::Found: q.base != p''))
               else
                 (case Found_loop h n (base_first (bases h b)) of
                    None \<Rightarrow> None
                  | Some r \<Rightarrow> Some (r, None))))"

text \<open>The scan of \<^verbatim>\<open>Remove\<close> for the predecessor of \<open>q\<close>.\<close>

partial_function (option) Remove_loop :: "'v heap \<Rightarrow> nat \<Rightarrow> nat option \<Rightarrow> nat option option" where
  "Remove_loop h q pnode =
     (case pnode of
        None \<Rightarrow> Some None
      | Some a \<Rightarrow>
          if node_next (nodes h a) = Some q then Some (Some a)
          else Remove_loop h q (node_next (nodes h a)))"

definition Remove :: "nat option \<Rightarrow> nat option \<Rightarrow> 'v heap \<Rightarrow> ((nat option \<times> error option) \<times> 'v heap) option" where
  "Remove p q h =
     (case p of
        None \<Rightarrow> Some ((None, Some (New ''List_base::Remove: p == nil'')), h)
      | Some b \<Rightarrow>
          (case q of
             None \<Rightarrow> Some ((None, None), h)
           | Some n \<Rightarrow>
               if base_first (bases h b) = None then Some ((None, None), h)
               else if base_last (bases h b) = None
               then Some ((None, Some (New ''List_base::Remove: p.first != p.last == nil'')), h)
               else if node_base (nodes h n) \<noteq> Some b
               then Some ((None, Some (New ''List_base::Remove: q.base != p'')), h)
               else if base_first (bases h b) = Some n
               then Some ((Some n, None), pop_head b n h)
               else
                 (case Remove_loop h n (base_first (bases h b)) of
                    None \<Rightarrow> None
                  | Some None \<Rightarrow> Some ((None, Some (New ''List_base::Remove: pnode == nil'')), h)
                  | Some (Some pnode) \<Rightarrow>
                      (let h1 = upd_node pnode (\<lambda>x. x\<lparr>node_next := node_next (nodes h n)\<rparr>) h;
                           h2 = (if base_last (bases h1 b) = Some n
                                 then upd_base b (\<lambda>x. x\<lparr>base_last := Some pnode\<rparr>) h1
                                 else h1)
                       in Some ((Some n, None), snd (unlink (Some n) h2))))))"

partial_function (option) Clear_loop :: "nat \<Rightarrow> 'v heap \<Rightarrow> 'v heap option" where
  "Clear_loop b h =
     (case base_first (bases h b) of
        None \<Rightarrow> Some h
      | Some f \<Rightarrow> Clear_loop b (pop_head b f h))"

definition Clear :: "nat option \<Rightarrow> 'v heap \<Rightarrow> (error option \<times> 'v heap) option" where
  "Clear p h =
     (case p of
        None \<Rightarrow> Some (Some (New ''List_base::Clear: p == nil''), h)
      | Some b \<Rightarrow>
          if base_first (bases h b) = None then Some (None, h)
          else if base_last (bases h b) = None
          then Some (Some (New ''List_base::Clear: p.first != p.last == nil''), h)
          else
            (case Clear_loop b h of
               None \<Rightarrow> None
             | Some h' \<Rightarrow> Some (None, h')))"

subsection \<open>List\_iter methods\<close>

definition Init :: "nat option \<Rightarrow> nat option \<Rightarrow> 'v heap \<Rightarrow> error option \<times> 'v heap" where
  "Init p b h =
     (case p of
        None \<Rightarrow> (Some (New ''List_base::Init: p == nil''), h)
      | Some i \<Rightarrow>
          (let h1 = upd_iter i (\<lambda>x. x\<lparr>iter_base := b\<rparr>) h;
               h2 = upd_iter i (\<lambda>x. x\<lparr>iter_current := None\<rparr>) h1
           in (None, h2)))"

definition Restart :: "nat option \<Rightarrow> 'v heap \<Rightarrow> error option \<times> 'v heap" where
  "Restart p h =
     (case p of
        None \<Rightarrow> (Some (New ''List_base::Restart: p == nil''), h)
      | Some i \<Rightarrow> (None, upd_iter i (\<lambda>x. x\<lparr>iter_current := None\<rparr>) h))"

definition Next :: "nat option \<Rightarrow> 'v heap \<Rightarrow> (nat option \<times> error option) \<times> 'v heap" where
  "Next p h =
     (case p of
        None \<Rightarrow> ((None, Some (New ''List_base::Next: p == nil'')), h)
      | Some i \<Rightarrow>
          (case iter_base (iters h i) of
             None \<Rightarrow> ((None, Some (New ''List_base::Next: p.base == nil'')), h)
           | Some b \<Rightarrow>
               (case iter_current (iters h i) of
                  None \<Rightarrow>
                    (let h1 = upd_iter i (\<lambda>x. x\<lparr>iter_current := base_first (bases h b)\<rparr>) h
                     in (case iter_current (iters h1 i) of
                           None \<Rightarrow> ((None, None), h1)
                         | Some c \<Rightarrow>
                             if node_base (nodes h1 c) = None
                             then ((None, Some (New ''List_base::Next: p.current.base == nil'')), h1)
                             else if node_base (nodes h1 c) \<noteq> iter_base (iters h1 i)
                             then ((None, Some (New ''List_base::Next: p.current.base != p.base'')), h1)
                             else ((iter_current (iters h1 i), None), h1)))
                | Some c \<Rightarrow>
                    if node_base (nodes h c) = None
                    then ((None, Some (New ''List_base::Next: p.current.base == nil'')), h)
                    else if node_base (nodes h c) \<noteq> iter_base (iters h i)
                    then ((None, Some (New ''List_base::Next: p.current.base != p.base'')), h)
                    else if node_next (nodes h c) = None
                    then ((None, None), h)
                    else
                      (let h1 = upd_iter i (\<lambda>x. x\<lparr>iter_current := node_next (nodes h c)\<rparr>) h
                       in ((iter_current (iters h1 i), None), h1)))))"

subsection \<open>Client loops used to state the scenarios\<close>

text \<open>A caller that appends a list of values one after the other and keeps the error
  result of every call.\<close>

fun AppendValues :: "nat option \<Rightarrow> 'v option list \<Rightarrow> 'v heap \<Rightarrow> error option list \<times> 'v heap" where
  "AppendValues p [] h = ([], h)"
| "AppendValues p (v # vs) h =
     (case AppendValue p v h of (e, h1) \<Rightarrow>
        (case AppendValues p vs h1 of (es, h2) \<Rightarrow> (e # es, h2)))"

text \<open>A caller that calls \<^verbatim>\<open>Next\<close> \<open>k\<close> times in a row and keeps the
  result of every call.\<close>

fun Next_times :: "nat \<Rightarrow> nat option \<Rightarrow> 'v heap \<Rightarrow> (nat option \<times> error option) list \<times> 'v heap" where
  "Next_times 0 p h = ([], h)"
| "Next_times (Suc k) p h =
     (case Next p h of (r, h1) \<Rightarrow>
        (case Next_times k p h1 of (rs, h2) \<Rightarrow> (r # rs, h2)))"

text \<open>The list base at address \<open>c\<close> of the empty heap after the values
  \<^verbatim>\<open>"a"\<close> and \<^verbatim>\<open>"b"\<close> have been appended.\<close>

definition list_ab :: "nat \<Rightarrow> string heap" where
  "list_ab c = snd (AppendValues (Some c) [Some ''a'', Some ''b''] heap0)"

text \<open>A list base whose \<^verbatim>\<open>first\<close> is nil and whose \<^verbatim>\<open>last\<close>
  points to a node.\<close>

definition first_nil_last_set :: "nat heap" where
  "first_nil_last_set = upd_base 0 (\<lambda>x. x\<lparr>base_last := Some 0\<rparr>) heap0"

text \<open>An unstarted iterator bound to the list base 0, whose first node 0 is registered
  with the base \<open>owner\<close> (or with none).\<close>

definition head_owned_by :: "nat option \<Rightarrow> nat heap" where
  "head_owned_by owner =
     upd_iter 0 (\<lambda>x. x\<lparr>iter_base := Some 0\<rparr>)
       (upd_base 0 (\<lambda>x. x\<lparr>base_first := Some 0, base_last := Some 0\<rparr>)
          (upd_node 0 (\<lambda>x. x\<lparr>node_base := owner\<rparr>) heap0))"

subsection \<open>The chain of a list base\<close>

text \<open>The \<^verbatim>\<open>next\<close> field of the node at an address.\<close>

definition nxt :: "'v heap \<Rightarrow> nat \<Rightarrow> nat option" where
  "nxt h a = node_next (nodes h a)"

text \<open>\<open>chain nx x ns\<close>: following \<open>nx\<close> from the pointer \<open>x\<close> visits exactly the
  nodes \<open>ns\<close>, in this order, and then meets nil.\<close>

fun chain :: "(nat \<Rightarrow> nat option) \<Rightarrow> nat option \<Rightarrow> nat list \<Rightarrow> bool" where
  "chain nx x [] = (x = None)"
| "chain nx x (a # as) = (x = Some a \<and> chain nx (nx a) as)"

definition last_of :: "nat list \<Rightarrow> nat option" where
  "last_of ns = (if ns = [] then None else Some (last ns))"

text \<open>The structural invariants of a list base \<open>b\<close> holding the nodes \<open>ns\<close>: the
  chain from \<^verbatim>\<open>first\<close> is \<open>ns\<close> and ends in nil, and \<^verbatim>\<open>last\<close> is
  the last node of \<open>ns\<close>, or nil when there is none (so \<^verbatim>\<open>first\<close> and
  \<^verbatim>\<open>last\<close> are nil together).\<close>

definition is_list :: "'v heap \<Rightarrow> nat \<Rightarrow> nat list \<Rightarrow> bool" where
  "is_list h b ns \<longleftrightarrow>
     chain (nxt h) (base_first (bases h b)) ns \<and> base_last (bases h b) = last_of ns"

subsection \<open>The invariant of the package and the reachable heaps\<close>

text \<open>A list base \<open>b\<close> is well formed with the nodes \<open>ns\<close> when it is a list of
  \<open>ns\<close> and every node of \<open>ns\<close> is an allocated node whose base pointer is
  \<open>b\<close>.\<close>

definition well_formed :: "'v heap \<Rightarrow> nat \<Rightarrow> nat list \<Rightarrow> bool" where
  "well_formed h b ns \<longleftrightarrow>
     is_list h b ns \<and> list_all (\<lambda>n. node_base (nodes h n) = Some b \<and> n < node_top h) ns"

definition list_inv :: "'v heap \<Rightarrow> bool" where
  "list_inv h \<longleftrightarrow> (\<forall>b. \<exists>ns. well_formed h b ns)"

text \<open>A node pointer that a caller can hold: nil, or a node allocated earlier.\<close>

definition valid_ptr :: "'v heap \<Rightarrow> nat option \<Rightarrow> bool" where
  "valid_ptr h q = (case q of None \<Rightarrow> True | Some n \<Rightarrow> n < node_top h)"

text \<open>\<open>linked h x n\<close>: the node \<open>n\<close> is met when following \<^verbatim>\<open>next\<close> from
  the pointer \<open>x\<close>.\<close>

inductive linked :: "'v heap \<Rightarrow> nat option \<Rightarrow> nat \<Rightarrow> bool" for h :: "'v heap" where
  linked_here: "linked h (Some n) n"
| linked_next: "linked h (node_next (nodes h a)) n \<Longrightarrow> linked h (Some a) n"

text \<open>
  The heaps a client of the package can produce. The fields of the three structs are not
  exported, so a client starts from zero values and changes them only through the exported
  methods: it allocates nodes, sets payloads, and calls the methods of list bases and
  iterators with any receiver and any arguments. Node pointers given to
  \<^verbatim>\<open>Append\<close> and \<^verbatim>\<open>Prepend\<close> are nil or allocated nodes. A call that
  does not return has no heap after it.
\<close>

inductive reachable :: "'v heap \<Rightarrow> bool" where
  r_init: "reachable heap0"
| r_new: "reachable h \<Longrightarrow> reachable (snd (new_List_node h))"
| r_SetValue: "reachable h \<Longrightarrow> reachable (snd (SetValue q v h))"
| r_Append: "reachable h \<Longrightarrow> valid_ptr h pnode \<Longrightarrow> reachable (snd (Append p pnode h))"
| r_AppendValue: "reachable h \<Longrightarrow> reachable (snd (AppendValue p v h))"
| r_Prepend: "reachable h \<Longrightarrow> valid_ptr h pnode \<Longrightarrow> reachable (snd (Prepend p pnode h))"
| r_PrependValue: "reachable h \<Longrightarrow> reachable (snd (PrependValue p v h))"
| r_Popfirst: "reachable h \<Longrightarrow> reachable (snd (Popfirst p h))"
| r_Poplast: "reachable h \<Longrightarrow> Poplast p h = Some (r, h') \<Longrightarrow> reachable h'"
| r_Remove: "reachable h \<Longrightarrow> Remove p q h = Some (r, h') \<Longrightarrow> reachable h'"
| r_Clear: "reachable h \<Longrightarrow> Clear p h = Some (e, h') \<Longrightarrow> reachable h'"
| r_Init: "reachable h \<Longrightarrow> reachable (snd (Init i p h))"
| r_Restart: "reachable h \<Longrightarrow> reachable (snd (Restart i h))"
| r_Next: "reachable h \<Longrightarrow> reachable (snd (Next i h))"

section \<open>Properties\<close>

lemmas heap_simps = upd_node_def upd_base_def upd_iter_def heap0_def zero_node_def zero_base_def
  zero_iter_def new_List_node_def SetValue_def Append_def AppendValue_def unlink_def Let_def

subsection \<open>Popfirst on a mismatched base, nil receivers and nil arguments\<close>

text \<open>
  C1, at the input where the source and the claim part. \<^verbatim>\<open>Popfirst\<close> tests
  \<^verbatim>\<open>p.first == nil\<close> first and returns \<^verbatim>\<open>(nil, nil)\<close> there, so the
  test \<^verbatim>\<open>p.last == nil\<close> behind the comment "If first is nil and last is not, this
  is a very serious error!" is reached only when \<^verbatim>\<open>first\<close> is not nil. On a base
  whose \<^verbatim>\<open>first\<close> is nil and whose \<^verbatim>\<open>last\<close> is not, the call returns
  the nil node and the nil error and changes nothing.
\<close>

theorem Popfirst_first_nil_last_set:
  "base_first (bases first_nil_last_set 0) = None \<and>
   base_last (bases first_nil_last_set 0) = Some 0 \<and>
   Popfirst (Some 0) first_nil_last_set = ((None, None), first_nil_last_set)"
  by (simp add: Popfirst_def first_nil_last_set_def upd_base_def heap0_def zero_base_def)

text \<open>What \<^verbatim>\<open>Popfirst\<close> does report: a base whose \<^verbatim>\<open>first\<close> is nil is
  taken as empty, and a base whose \<^verbatim>\<open>first\<close> is set while \<^verbatim>\<open>last\<close>
  is nil is an error.\<close>

lemma Popfirst_empty:
  "base_first (bases h b) = None \<Longrightarrow> Popfirst (Some b) h = ((None, None), h)"
  by (simp add: Popfirst_def)

lemma Popfirst_last_nil:
  "base_first (bases h b) = Some f \<Longrightarrow> base_last (bases h b) = None \<Longrightarrow>
   Popfirst (Some b) h = ((None, Some (New ''List_base::Popfirst: p.first != p.last == nil'')), h)"
  by (simp add: Popfirst_def)

text \<open>
  C2 as the source has it: on a nil receiver the nine methods that return an error
  (\<^verbatim>\<open>Append\<close>, \<^verbatim>\<open>AppendValue\<close>, \<^verbatim>\<open>Prepend\<close>,
  \<^verbatim>\<open>PrependValue\<close>, \<^verbatim>\<open>Popfirst\<close>, \<^verbatim>\<open>Poplast\<close>,
  \<^verbatim>\<open>Found\<close>, \<^verbatim>\<open>Remove\<close>, \<^verbatim>\<open>Clear\<close>) return their
  "p == nil" error and leave the heap as it is, while the four queries, whose Go signatures
  have no error result, return a default: \<^verbatim>\<open>Empty\<close> true,
  \<^verbatim>\<open>GetFirst\<close> nil, \<^verbatim>\<open>Length\<close> 0 and \<^verbatim>\<open>ValidLength\<close>
  (0, 0, 0).
\<close>

theorem nil_receiver:
  "Append None pnode h = (Some (New ''List_base::Append: p == nil''), h) \<and>
   AppendValue None v h = (Some (New ''List_base::AppendValue: p == nil''), h) \<and>
   Prepend None pnode h = (Some (New ''List_base::Prepend: p == nil''), h) \<and>
   PrependValue None v h = (Some (New ''List_base::PrependValue: p == nil''), h) \<and>
   Popfirst None h = ((None, Some (New ''List_base::Popfirst: p == nil'')), h) \<and>
   Poplast None h = Some ((None, Some (New ''List_base::Poplast: p == nil'')), h) \<and>
   Found None q h = Some (False, Some (New ''List_base::Found: p == nil'')) \<and>
   Remove None q h = Some ((None, Some (New ''List_base::Remove: p == nil'')), h) \<and>
   Clear None h = Some (Some (New ''List_base::Clear: p == nil''), h) \<and>
   Empty None h = True \<and> GetFirst None h = None \<and>
   Length None h = Some 0 \<and> ValidLength None h = Some (0, 0, 0)"
  by (simp add: Append_def AppendValue_def Prepend_def PrependValue_def Popfirst_def Poplast_def
      Found_def Remove_def Clear_def Empty_def GetFirst_def Length_def ValidLength_def)

text \<open>C2 as the claim states it fails for the four queries: called on a nil receiver they
  return an ordinary value, not an error.\<close>

theorem nil_receiver_queries_counterexample:
  "Empty None (heap0 :: nat heap) = True \<and>
   GetFirst None (heap0 :: nat heap) = None \<and>
   Length None (heap0 :: nat heap) = Some 0 \<and>
   ValidLength None (heap0 :: nat heap) = Some (0, 0, 0)"
  by (simp add: Empty_def GetFirst_def Length_def ValidLength_def)

text \<open>C9: on any list base, \<^verbatim>\<open>Append\<close> and \<^verbatim>\<open>Prepend\<close> of a nil
  node return the nil error and leave the whole heap, hence the base's first, last and
  chain, unchanged.\<close>

theorem Append_Prepend_nil_node:
  "Append (Some b) None h = (None, h) \<and> Prepend (Some b) None h = (None, h)"
  by (simp add: Append_def Prepend_def)

subsection \<open>Ownership checks\<close>

text \<open>C4: a node whose base pointer is set, to the target base or to any other, is
  rejected by \<^verbatim>\<open>Append\<close> with the error "pnode.base != nil", and the heap after
  the call is the heap before it, so neither the target nor the owning base has changed.\<close>

theorem Append_owned:
  "node_base (nodes h n) \<noteq> None \<Longrightarrow>
   Append (Some b) (Some n) h = (Some (New ''List_base::Append: pnode.base != nil''), h)"
  by (simp add: Append_def)

text \<open>The node appended to base 0 is then refused by base 1, and by base 0 itself.\<close>

theorem Append_owned_witness:
  "node_base (nodes (snd (AppendValue (Some 0) (Some (7::nat)) heap0)) 0) \<noteq> None \<and>
   Append (Some 1) (Some 0) (snd (AppendValue (Some 0) (Some (7::nat)) heap0)) =
     (Some (New ''List_base::Append: pnode.base != nil''),
      snd (AppendValue (Some 0) (Some (7::nat)) heap0)) \<and>
   Append (Some 0) (Some 0) (snd (AppendValue (Some 0) (Some (7::nat)) heap0)) =
     (Some (New ''List_base::Append: pnode.base != nil''),
      snd (AppendValue (Some 0) (Some (7::nat)) heap0))"
proof -
  let ?h = "snd (AppendValue (Some 0) (Some (7::nat)) heap0)"
  have owned: "node_base (nodes ?h 0) \<noteq> None"
    by (simp add: heap_simps)
  show ?thesis
    using owned Append_owned [OF owned, of 1] Append_owned [OF owned, of 0] by simp
qed

text \<open>
  C3 as the source has it: after \<^verbatim>\<open>"a"\<close> and \<^verbatim>\<open>"b"\<close> have been
  appended to the base \<open>c\<close>, a node fresh from \<^verbatim>\<open>new(List_node)\<close> has a nil
  base pointer; \<^verbatim>\<open>Found\<close> returns false together with the error
  "q.base != p", and \<^verbatim>\<open>Remove\<close> returns the nil node together with the error
  "q.base != p" and leaves the heap as it is.
\<close>

theorem free_node_not_owner:
  "case new_List_node (list_ab c) of (q, h) \<Rightarrow>
     node_base (nodes h q) = None \<and>
     Found (Some c) (Some q) h = Some (False, Some (New ''List_base::Found: q.base != p'')) \<and>
     Remove (Some c) (Some q) h = Some ((None, Some (New ''List_base::Remove: q.base != p'')), h)"
  by (simp add: list_ab_def Found_def Remove_def heap_simps)

text \<open>C3 as the claim states it fails: in that scenario neither call returns a nil
  error.\<close>

theorem free_node_counterexample:
  "Found (Some 0) (Some (fst (new_List_node (list_ab 0)))) (snd (new_List_node (list_ab 0)))
     \<noteq> Some (False, None) \<and>
   map_option fst
     (Remove (Some 0) (Some (fst (new_List_node (list_ab 0)))) (snd (new_List_node (list_ab 0))))
     \<noteq> Some (None, None)"
  by (simp add: list_ab_def Found_def Remove_def heap_simps)

subsection \<open>The iterator\<close>

text \<open>
  C6: the values 1, 2, 3 are appended to the base \<open>c\<close> of the empty heap, without error;
  an iterator \<open>i\<close> is bound to \<open>c\<close>. Four calls of \<^verbatim>\<open>Next\<close> return the
  three nodes in the order of insertion and then the nil node, all with nil errors, and the
  payloads of the three nodes are 1, 2, 3. After \<^verbatim>\<open>Restart\<close> four more calls
  return the same results.
\<close>

theorem iterate_123:
  "case AppendValues (Some c) [Some (1::int), Some 2, Some 3] heap0 of (es, h1) \<Rightarrow>
   case Init (Some i) (Some c) h1 of (e0, h2) \<Rightarrow>
   case Next_times 4 (Some i) h2 of (rs1, h3) \<Rightarrow>
   case Restart (Some i) h3 of (e1, h4) \<Rightarrow>
   case Next_times 4 (Some i) h4 of (rs2, h5) \<Rightarrow>
     es = [None, None, None] \<and> e0 = None \<and> e1 = None \<and>
     rs1 = [(Some 0, None), (Some 1, None), (Some 2, None), (None, None)] \<and>
     map (\<lambda>r. fst (GetValue (fst r) h3)) (take 3 rs1) = [Some 1, Some 2, Some 3] \<and>
     rs2 = rs1 \<and>
     map (\<lambda>r. fst (GetValue (fst r) h5)) (take 3 rs2) = [Some 1, Some 2, Some 3]"
  by (simp add: heap_simps Init_def Restart_def Next_def GetValue_def eval_nat_numeral)

text \<open>
  C8 as the source has it: \<^verbatim>\<open>Next\<close> on a bound, unstarted iterator stores the
  first node of the base in \<^verbatim>\<open>current\<close> before it checks that node. When the
  node's base pointer is nil or is another base, the call returns the nil node with the
  error "p.current.base == nil" or "p.current.base != p.base", and the iterator is left
  positioned on that first node.
\<close>

theorem Next_unstarted_corrupt_head:
  assumes "iter_base (iters h i) = Some b" and "iter_current (iters h i) = None"
    and "base_first (bases h b) = Some c" and "node_base (nodes h c) \<noteq> Some b"
  shows "Next (Some i) h =
    ((None, Some (New (if node_base (nodes h c) = None
                       then ''List_base::Next: p.current.base == nil''
                       else ''List_base::Next: p.current.base != p.base''))),
     upd_iter i (\<lambda>x. x\<lparr>iter_current := Some c\<rparr>) h)"
  using assms by (simp add: Next_def upd_iter_def Let_def)

text \<open>The first node of base 0 is registered with base 1.\<close>

theorem Next_unstarted_corrupt_head_witness:
  "iter_base (iters (head_owned_by (Some 1)) 0) = Some 0 \<and>
   iter_current (iters (head_owned_by (Some 1)) 0) = None \<and>
   base_first (bases (head_owned_by (Some 1)) 0) = Some 0 \<and>
   node_base (nodes (head_owned_by (Some 1)) 0) \<noteq> Some 0 \<and>
   Next (Some 0) (head_owned_by (Some 1)) =
     ((None, Some (New ''List_base::Next: p.current.base != p.base'')),
      upd_iter 0 (\<lambda>x. x\<lparr>iter_current := Some 0\<rparr>) (head_owned_by (Some 1)))"
proof -
  let ?h = "head_owned_by (Some 1)"
  have a: "iter_base (iters ?h 0) = Some 0" and b: "iter_current (iters ?h 0) = None"
    and c: "base_first (bases ?h 0) = Some 0" and d: "node_base (nodes ?h 0) \<noteq> Some 0"
    and e: "node_base (nodes ?h 0) \<noteq> None"
    by (simp_all add: head_owned_by_def heap_simps)
  show ?thesis
    using a b c d e Next_unstarted_corrupt_head [OF a b c d] by simp
qed

text \<open>C8 as the claim states it fails: the first node of base 0 has a nil base pointer,
  the call fails, and the cursor, nil before the call, is the first node after it.\<close>

theorem Next_unstarted_counterexample:
  "fst (Next (Some 0) (head_owned_by None)) =
     (None, Some (New ''List_base::Next: p.current.base == nil'')) \<and>
   iter_current (iters (head_owned_by None) 0) = None \<and>
   iter_current (iters (snd (Next (Some 0) (head_owned_by None))) 0) = Some 0"
  by (simp add: Next_def head_owned_by_def heap_simps)

lemma Next_at_end:
  assumes "iter_base (iters h i) = Some b" and "iter_current (iters h i) = Some c"
    and "node_base (nodes h c) = Some b" and "node_next (nodes h c) = None"
  shows "Next (Some i) h = ((None, None), h)"
  using assms by (simp add: Next_def)

text \<open>C10: when the iterator is positioned on a node that is registered with the bound
  base and has no successor, any number \<open>k\<close> of calls of \<^verbatim>\<open>Next\<close> in a row all
  return the nil node with the nil error, and the heap, so the cursor too, stays as it
  was.\<close>

theorem Next_at_end_stable:
  assumes "iter_base (iters h i) = Some b" and "iter_current (iters h i) = Some c"
    and "node_base (nodes h c) = Some b" and "node_next (nodes h c) = None"
  shows "Next_times k (Some i) h = (replicate k (None, None), h)"
  by (induction k) (simp_all add: Next_at_end [OF assms])

text \<open>An iterator that has delivered the only node of a one-element list.\<close>

theorem Next_at_end_stable_witness:
  "iter_base (iters (snd (Next (Some 0) (head_owned_by (Some 0)))) 0) = Some 0 \<and>
   iter_current (iters (snd (Next (Some 0) (head_owned_by (Some 0)))) 0) = Some 0 \<and>
   node_base (nodes (snd (Next (Some 0) (head_owned_by (Some 0)))) 0) = Some 0 \<and>
   node_next (nodes (snd (Next (Some 0) (head_owned_by (Some 0)))) 0) = None \<and>
   Next_times 3 (Some 0) (snd (Next (Some 0) (head_owned_by (Some 0)))) =
     ([(None, None), (None, None), (None, None)], snd (Next (Some 0) (head_owned_by (Some 0))))"
proof -
  let ?h = "snd (Next (Some 0) (head_owned_by (Some 0)))"
  have a: "iter_base (iters ?h 0) = Some 0" and b: "iter_current (iters ?h 0) = Some 0"
    and c: "node_base (nodes ?h 0) = Some 0" and d: "node_next (nodes ?h 0) = None"
    by (simp_all add: Next_def head_owned_by_def heap_simps)
  show ?thesis
    using a b c d Next_at_end_stable [OF a b c d, of 3] by (simp add: eval_nat_numeral)
qed

subsection \<open>Chains\<close>

lemma chain_None [simp]: "chain nx None ns \<longleftrightarrow> ns = []"
  by (cases ns) auto

lemma chain_Some: "chain nx (Some a) ns \<longleftrightarrow> (\<exists>as. ns = a # as \<and> chain nx (nx a) as)"
  by (cases ns) auto

lemma chain_unique: "chain nx x as \<Longrightarrow> chain nx x bs \<Longrightarrow> as = bs"
proof (induction as arbitrary: x bs)
  case Nil
  then show ?case by simp
next
  case (Cons a as)
  then show ?case by (cases bs) auto
qed

lemma chain_suffix: "chain nx x (as @ b # bs) \<Longrightarrow> chain nx (Some b) (b # bs)"
  by (induction as arbitrary: x) auto

lemma chain_hd_notin: assumes "chain nx (nx a) as" shows "a \<notin> set as"
proof
  assume "a \<in> set as"
  then obtain bs cs where as: "as = bs @ a # cs"
    by (auto simp: in_set_conv_decomp)
  with assms have "chain nx (Some a) (a # cs)"
    using chain_suffix by blast
  then have "chain nx (nx a) cs" by simp
  with assms have "as = cs" by (rule chain_unique)
  with as show False by simp
qed

lemma chain_distinct: "chain nx x ns \<Longrightarrow> distinct ns"
proof (induction ns arbitrary: x)
  case Nil
  then show ?case by simp
next
  case (Cons a as)
  then show ?case using chain_hd_notin by auto
qed

lemma chain_cong: "\<forall>a\<in>set ns. nx' a = nx a \<Longrightarrow> chain nx' x ns = chain nx x ns"
  by (induction ns arbitrary: x) auto

lemma chain_upd_notin: "a \<notin> set ns \<Longrightarrow> chain (nx(a := v)) x ns = chain nx x ns"
  by (rule chain_cong) auto

lemma nxt_pop_head: "nxt (pop_head b f h) = (nxt h)(f := None)"
  by (auto simp: nxt_def pop_head_def unlink_def upd_node_def upd_base_def Let_def fun_eq_iff)

lemma nodes_pop_head:
  "nodes (pop_head b f h) = (nodes h)(f := (nodes h f)\<lparr>node_next := None, node_base := None\<rparr>)"
  by (auto simp: pop_head_def unlink_def upd_node_def upd_base_def Let_def fun_eq_iff)

lemma bases_pop_head:
  "bases (pop_head b f h) = (bases h)(b := (bases h b)\<lparr>
      base_first := node_next (nodes h f),
      base_last := (if base_last (bases h b) = base_first (bases h b) then None else base_last (bases h b))\<rparr>)"
  by (auto simp: pop_head_def unlink_def upd_node_def upd_base_def Let_def fun_eq_iff)

lemma rest_pop_head: "iters (pop_head b f h) = iters h" "node_top (pop_head b f h) = node_top h"
  by (auto simp: pop_head_def unlink_def upd_node_def upd_base_def Let_def)

lemma is_list_pop_head:
  assumes "is_list h b (a # as)"
  shows "is_list (pop_head b a h) b as"
proof -
  from assms have first: "base_first (bases h b) = Some a" and ch: "chain (nxt h) (nxt h a) as"
    and last: "base_last (bases h b) = Some (last (a # as))"
    by (auto simp: is_list_def last_of_def)
  have notin: "a \<notin> set as" using ch by (rule chain_hd_notin)
  have "chain (nxt (pop_head b a h)) (nxt h a) as"
    using ch notin by (simp add: nxt_pop_head chain_upd_notin)
  moreover have "(if base_last (bases h b) = base_first (bases h b) then None else base_last (bases h b)) = last_of as"
  proof (cases as)
    case Nil
    with first last show ?thesis by (simp add: last_of_def)
  next
    case (Cons c cs)
    then have "last (a # as) \<in> set as" by simp
    with notin have "last (a # as) \<noteq> a" by auto
    with first last Cons show ?thesis by (simp add: last_of_def)
  qed
  ultimately show ?thesis
    by (simp add: is_list_def bases_pop_head nxt_def)
qed

lemma Clear_loop_list:
  "is_list h b ns \<Longrightarrow>
   \<exists>h'. Clear_loop b h = Some h' \<and> is_list h' b [] \<and>
        (\<forall>a\<in>set ns. node_base (nodes h' a) = None \<and> node_next (nodes h' a) = None \<and>
           node_value (nodes h' a) = node_value (nodes h a)) \<and>
        (\<forall>a. a \<notin> set ns \<longrightarrow> nodes h' a = nodes h a) \<and>
        (\<forall>c. c \<noteq> b \<longrightarrow> bases h' c = bases h c) \<and>
        iters h' = iters h \<and> node_top h' = node_top h"
proof (induction ns arbitrary: h)
  case Nil
  then have "base_first (bases h b) = None" by (simp add: is_list_def)
  then have "Clear_loop b h = Some h" by (simp add: Clear_loop.simps)
  with Nil show ?case by simp
next
  case (Cons a as)
  let ?h1 = "pop_head b a h"
  from Cons.prems have first: "base_first (bases h b) = Some a"
    by (simp add: is_list_def)
  from Cons.prems have "chain (nxt h) (nxt h a) as" by (simp add: is_list_def)
  then have notin: "a \<notin> set as" by (rule chain_hd_notin)
  have "is_list ?h1 b as" using Cons.prems by (rule is_list_pop_head)
  from Cons.IH [OF this] obtain h' where h': "Clear_loop b ?h1 = Some h'" "is_list h' b []"
    "\<forall>x\<in>set as. node_base (nodes h' x) = None \<and> node_next (nodes h' x) = None \<and>
           node_value (nodes h' x) = node_value (nodes ?h1 x)"
    "\<forall>x. x \<notin> set as \<longrightarrow> nodes h' x = nodes ?h1 x"
    "\<forall>c. c \<noteq> b \<longrightarrow> bases h' c = bases ?h1 c"
    "iters h' = iters ?h1" "node_top h' = node_top ?h1"
    by blast
  have "Clear_loop b h = Some h'"
    using first h'(1) by (subst Clear_loop.simps) simp
  moreover have "\<forall>x\<in>set (a # as). node_base (nodes h' x) = None \<and> node_next (nodes h' x) = None \<and>
           node_value (nodes h' x) = node_value (nodes h x)"
    using h'(3,4) notin by (auto simp: nodes_pop_head)
  moreover have "\<forall>x. x \<notin> set (a # as) \<longrightarrow> nodes h' x = nodes h x"
    using h'(4) by (auto simp: nodes_pop_head)
  moreover have "\<forall>c. c \<noteq> b \<longrightarrow> bases h' c = bases h c"
    using h'(5) by (auto simp: bases_pop_head)
  ultimately show ?case using h'(2,6,7) by (simp add: rest_pop_head)
qed

text \<open>
  C7: let the base \<open>b\<close> be well formed with the nodes \<open>ns\<close> (its chain from
  \<^verbatim>\<open>first\<close> is \<open>ns\<close> and ends in nil, \<^verbatim>\<open>last\<close> is the last of
  them). Then \<^verbatim>\<open>Clear\<close> returns, with the nil error; afterwards every node of
  \<open>ns\<close> has a nil base pointer and \<^verbatim>\<open>first\<close> and \<^verbatim>\<open>last\<close> of
  \<open>b\<close> are nil; and a second \<^verbatim>\<open>Clear\<close> returns the nil error and the same
  heap. That the nodes were registered with \<open>b\<close> before is not needed.
\<close>

theorem Clear_detaches:
  assumes "is_list h b ns"
  shows "\<exists>h'. Clear (Some b) h = Some (None, h') \<and>
           list_all (\<lambda>n. node_base (nodes h' n) = None) ns \<and>
           base_first (bases h' b) = None \<and> base_last (bases h' b) = None \<and>
           Clear (Some b) h' = Some (None, h')"
proof -
  from Clear_loop_list [OF assms] obtain h' where h': "Clear_loop b h = Some h'" "is_list h' b []"
    "\<forall>a\<in>set ns. node_base (nodes h' a) = None" by blast
  from h'(2) have empty: "base_first (bases h' b) = None" "base_last (bases h' b) = None"
    by (simp_all add: is_list_def last_of_def)
  have again: "Clear (Some b) h' = Some (None, h')"
    using empty by (simp add: Clear_def)
  show ?thesis
  proof (cases ns)
    case Nil
    with assms have "base_first (bases h b) = None" by (simp add: is_list_def)
    then have "Clear (Some b) h = Some (None, h)" "Clear_loop b h = Some h"
      by (simp_all add: Clear_def Clear_loop.simps)
    with h' empty again show ?thesis by (auto simp: list_all_iff)
  next
    case (Cons a as)
    with assms have "base_first (bases h b) = Some a" "base_last (bases h b) = Some (last ns)"
      by (simp_all add: is_list_def last_of_def)
    then have "Clear (Some b) h = Some (None, h')"
      using h'(1) by (simp add: Clear_def)
    with h' empty again show ?thesis by (auto simp: list_all_iff)
  qed
qed

text \<open>The list of two nodes built by appending \<^verbatim>\<open>"a"\<close> and
  \<^verbatim>\<open>"b"\<close>.\<close>

theorem Clear_detaches_witness:
  "is_list (list_ab 0) 0 [0, 1] \<and>
   (\<exists>h'. Clear (Some 0) (list_ab 0) = Some (None, h') \<and>
      list_all (\<lambda>n. node_base (nodes h' n) = None) [0, 1] \<and>
      base_first (bases h' 0) = None \<and> base_last (bases h' 0) = None \<and>
      Clear (Some 0) h' = Some (None, h'))"
proof -
  have l: "is_list (list_ab 0) 0 [0, 1]"
    by (simp add: is_list_def list_ab_def nxt_def last_of_def heap_simps)
  show ?thesis
    using l Clear_detaches [OF l] by simp
qed

subsection \<open>The ownership invariant\<close>

lemma well_formedD:
  assumes "well_formed h b ns"
  shows "chain (nxt h) (base_first (bases h b)) ns" and "base_last (bases h b) = last_of ns"
    and "\<And>n. n \<in> set ns \<Longrightarrow> node_base (nodes h n) = Some b"
    and "\<And>n. n \<in> set ns \<Longrightarrow> n < node_top h"
  using assms by (auto simp: well_formed_def is_list_def list_all_iff)

lemma well_formedI:
  assumes "chain (nxt h) (base_first (bases h b)) ns" and "base_last (bases h b) = last_of ns"
    and "\<And>n. n \<in> set ns \<Longrightarrow> node_base (nodes h n) = Some b"
    and "\<And>n. n \<in> set ns \<Longrightarrow> n < node_top h"
  shows "well_formed h b ns"
  using assms by (auto simp: well_formed_def is_list_def list_all_iff)

lemma well_formed_frame:
  assumes wf: "well_formed h c ns" and "bases h' c = bases h c"
    and same: "\<And>a. a \<in> set ns \<Longrightarrow> node_next (nodes h' a) = node_next (nodes h a) \<and>
                 node_base (nodes h' a) = node_base (nodes h a)"
    and "node_top h \<le> node_top h'"
  shows "well_formed h' c ns"
proof (rule well_formedI)
  have "chain (nxt h') (base_first (bases h c)) ns = chain (nxt h) (base_first (bases h c)) ns"
    by (rule chain_cong) (simp add: nxt_def same)
  then show "chain (nxt h') (base_first (bases h' c)) ns"
    using assms(2) well_formedD(1) [OF wf] by simp
  show "base_last (bases h' c) = last_of ns"
    using assms(2) well_formedD(2) [OF wf] by simp
  show "node_base (nodes h' n) = Some c" if "n \<in> set ns" for n
    using that same well_formedD(3) [OF wf] by simp
  show "n < node_top h'" if "n \<in> set ns" for n
    using that assms(4) well_formedD(4) [OF wf] by fastforce
qed

lemma list_inv_heap0: "list_inv heap0"
proof -
  have "well_formed (heap0 :: 'a heap) b []" for b
    by (simp add: well_formed_def is_list_def heap0_def zero_base_def last_of_def)
  then show ?thesis unfolding list_inv_def by blast
qed

lemma list_inv_new: assumes "list_inv h" shows "list_inv (snd (new_List_node h))"
  unfolding list_inv_def
proof
  fix c
  from assms obtain ns where wf: "well_formed h c ns" unfolding list_inv_def by blast
  have "well_formed (snd (new_List_node h)) c ns"
  proof (rule well_formed_frame [OF wf])
    fix a assume "a \<in> set ns"
    then have "a \<noteq> node_top h" using well_formedD(4) [OF wf] by fastforce
    then show "node_next (nodes (snd (new_List_node h)) a) = node_next (nodes h a) \<and>
      node_base (nodes (snd (new_List_node h)) a) = node_base (nodes h a)"
      by (simp add: new_List_node_def)
  qed (simp_all add: new_List_node_def)
  then show "\<exists>ns. well_formed (snd (new_List_node h)) c ns" ..
qed

lemma list_inv_SetValue: assumes "list_inv h" shows "list_inv (snd (SetValue p v h))"
  unfolding list_inv_def
proof
  fix c
  from assms obtain ns where wf: "well_formed h c ns" unfolding list_inv_def by blast
  have "well_formed (snd (SetValue p v h)) c ns"
    by (rule well_formed_frame [OF wf]) (simp_all add: SetValue_def upd_node_def split: option.split)
  then show "\<exists>ns. well_formed (snd (SetValue p v h)) c ns" ..
qed

lemma top_SetValue: "node_top (snd (SetValue p v h)) = node_top h"
  by (simp add: SetValue_def upd_node_def split: option.split)

lemma chain_snoc:
  "chain nx x as \<Longrightarrow> as \<noteq> [] \<Longrightarrow> n \<notin> set as \<Longrightarrow>
   chain (nx(n := None, last as := Some n)) x (as @ [n])"
proof (induction as arbitrary: x)
  case Nil
  then show ?case by simp
next
  case (Cons a as)
  show ?case
  proof (cases as)
    case Nil
    with Cons.prems show ?thesis by auto
  next
    case (Cons c cs)
    from Cons.prems(1) have "a \<notin> set as" using chain_hd_notin by auto
    then have "a \<noteq> last as" using Cons by auto
    with Cons.prems Cons.IH [of "nx a"] Cons show ?thesis by auto
  qed
qed

text \<open>What Append does when it accepts the node.\<close>

lemma Append_accept:
  assumes "node_base (nodes h n) = None"
  shows "nxt (snd (Append (Some b) (Some n) h)) =
           (case base_last (bases h b) of
              None \<Rightarrow> (nxt h)(n := None)
            | Some l \<Rightarrow> (nxt h)(n := None, l := Some n))"
    and "\<And>a. node_base (nodes (snd (Append (Some b) (Some n) h)) a) =
           (if a = n then Some b else node_base (nodes h a))"
    and "bases (snd (Append (Some b) (Some n) h)) =
           (bases h)(b := \<lparr>base_first = (if base_last (bases h b) = None then Some n
                                         else base_first (bases h b)),
                          base_last = Some n\<rparr>)"
    and "node_top (snd (Append (Some b) (Some n) h)) = node_top h"
  using assms
  by (auto simp: Append_def nxt_def upd_node_def upd_base_def Let_def fun_eq_iff split: option.split)

lemma list_inv_Append:
  assumes inv: "list_inv h" and valid: "valid_ptr h pnode"
  shows "list_inv (snd (Append p pnode h))"
proof (cases "\<exists>b n. p = Some b \<and> pnode = Some n \<and> node_base (nodes h n) = None")
  case False
  then have "snd (Append p pnode h) = h"
    by (auto simp: Append_def split: option.split)
  with inv show ?thesis by simp
next
  case True
  then obtain b n where p: "p = Some b" "pnode = Some n" and free: "node_base (nodes h n) = None"
    by blast
  from valid p have n_top: "n < node_top h" by (simp add: valid_ptr_def)
  let ?h' = "snd (Append (Some b) (Some n) h)"
  note acc = Append_accept [OF free, of b]
  from inv obtain ns where wf: "well_formed h b ns" unfolding list_inv_def by blast
  note wfD = well_formedD [OF wf]
  have n_notin: "n \<notin> set ns" using wfD(3) free by fastforce
  have "\<exists>ms. well_formed ?h' c ms" for c
  proof (cases "c = b")
    case True
    have "well_formed ?h' b (ns @ [n])"
    proof (rule well_formedI)
      show "chain (nxt ?h') (base_first (bases ?h' b)) (ns @ [n])"
      proof (cases ns)
        case Nil
        with wfD(1,2) show ?thesis by (simp add: acc last_of_def)
      next
        case (Cons a as)
        then have "ns \<noteq> []" by simp
        with wfD(2) have last: "base_last (bases h b) = Some (last ns)" by (simp add: last_of_def)
        from chain_snoc [OF wfD(1) \<open>ns \<noteq> []\<close> n_notin] show ?thesis
          by (simp add: acc last)
      qed
      show "base_last (bases ?h' b) = last_of (ns @ [n])"
        by (simp add: acc last_of_def)
      show "node_base (nodes ?h' a) = Some b" if "a \<in> set (ns @ [n])" for a
        using that wfD(3) by (auto simp: acc)
      show "a < node_top ?h'" if "a \<in> set (ns @ [n])" for a
        using that wfD(4) n_top by (auto simp: acc)
    qed
    with True show ?thesis by blast
  next
    case False
    from inv obtain ms where wfc: "well_formed h c ms" unfolding list_inv_def by blast
    note wfcD = well_formedD [OF wfc]
    have n_ms: "n \<notin> set ms" using wfcD(3) free by fastforce
    have l_ms: "l \<notin> set ms" if "base_last (bases h b) = Some l" for l
    proof -
      from that wfD(2) have "l \<in> set ns" by (auto simp: last_of_def split: if_splits)
      then have "node_base (nodes h l) = Some b" by (rule wfD(3))
      with wfcD(3) False show ?thesis by fastforce
    qed
    have "well_formed ?h' c ms"
    proof (rule well_formed_frame [OF wfc])
      show "bases ?h' c = bases h c" using False by (simp add: acc)
      show "node_top h \<le> node_top ?h'" by (simp add: acc)
      fix a assume a: "a \<in> set ms"
      with n_ms l_ms have "a \<noteq> n" "\<And>l. base_last (bases h b) = Some l \<Longrightarrow> a \<noteq> l" by auto
      then have "nxt ?h' a = nxt h a" by (auto simp: acc split: option.split)
      moreover have "node_base (nodes ?h' a) = node_base (nodes h a)"
        using \<open>a \<noteq> n\<close> by (simp add: acc)
      ultimately show "node_next (nodes ?h' a) = node_next (nodes h a) \<and>
        node_base (nodes ?h' a) = node_base (nodes h a)" by (simp add: nxt_def)
    qed
    then show ?thesis ..
  qed
  then show ?thesis using p by (simp add: list_inv_def)
qed


text \<open>An operation on base b that only writes to b and to nodes that are free or
  registered with b keeps the invariant, once b itself is shown well formed.\<close>

lemma list_inv_step:
  assumes inv: "list_inv h" and new: "well_formed h' b ns'"
    and bases: "\<And>c. c \<noteq> b \<Longrightarrow> bases h' c = bases h c"
    and top: "node_top h \<le> node_top h'"
    and nodes: "\<And>a c. node_base (nodes h a) = Some c \<Longrightarrow> c \<noteq> b \<Longrightarrow>
       node_next (nodes h' a) = node_next (nodes h a) \<and> node_base (nodes h' a) = node_base (nodes h a)"
  shows "list_inv h'"
  unfolding list_inv_def
proof
  fix c
  show "\<exists>ms. well_formed h' c ms"
  proof (cases "c = b")
    case True
    with new show ?thesis by blast
  next
    case False
    from inv obtain ms where wfc: "well_formed h c ms" unfolding list_inv_def by blast
    have "well_formed h' c ms"
    proof (rule well_formed_frame [OF wfc])
      show "bases h' c = bases h c" using False by (rule bases)
      show "node_top h \<le> node_top h'" by (rule top)
      fix a assume "a \<in> set ms"
      then have "node_base (nodes h a) = Some c" by (rule well_formedD(3) [OF wfc])
      then show "node_next (nodes h' a) = node_next (nodes h a) \<and>
        node_base (nodes h' a) = node_base (nodes h a)" using False by (rule nodes)
    qed
    then show ?thesis ..
  qed
qed

lemma Prepend_accept:
  assumes "node_base (nodes h n) = None"
  shows "nxt (snd (Prepend (Some b) (Some n) h)) = (nxt h)(n := base_first (bases h b))"
    and "\<And>a. node_base (nodes (snd (Prepend (Some b) (Some n) h)) a) =
           (if a = n then Some b else node_base (nodes h a))"
    and "bases (snd (Prepend (Some b) (Some n) h)) =
           (bases h)(b := \<lparr>base_first = Some n,
                          base_last = (if base_last (bases h b) = None then Some n
                                       else base_last (bases h b))\<rparr>)"
    and "node_top (snd (Prepend (Some b) (Some n) h)) = node_top h"
  using assms
  by (auto simp: Prepend_def nxt_def upd_node_def upd_base_def Let_def fun_eq_iff)

lemma list_inv_Prepend:
  assumes inv: "list_inv h" and valid: "valid_ptr h pnode"
  shows "list_inv (snd (Prepend p pnode h))"
proof (cases "\<exists>b n. p = Some b \<and> pnode = Some n \<and> node_base (nodes h n) = None")
  case False
  then have "snd (Prepend p pnode h) = h"
    by (auto simp: Prepend_def split: option.split)
  with inv show ?thesis by simp
next
  case True
  then obtain b n where p: "p = Some b" "pnode = Some n" and free: "node_base (nodes h n) = None"
    by blast
  from valid p have n_top: "n < node_top h" by (simp add: valid_ptr_def)
  let ?h' = "snd (Prepend (Some b) (Some n) h)"
  note acc = Prepend_accept [OF free, of b]
  from inv obtain ns where wf: "well_formed h b ns" unfolding list_inv_def by blast
  note wfD = well_formedD [OF wf]
  have n_notin: "n \<notin> set ns" using wfD(3) free by fastforce
  have "well_formed ?h' b (n # ns)"
  proof (rule well_formedI)
    show "chain (nxt ?h') (base_first (bases ?h' b)) (n # ns)"
      using wfD(1) n_notin by (simp add: acc chain_upd_notin)
    show "base_last (bases ?h' b) = last_of (n # ns)"
      using wfD(2) by (simp add: acc last_of_def)
    show "node_base (nodes ?h' a) = Some b" if "a \<in> set (n # ns)" for a
      using that wfD(3) by (auto simp: acc)
    show "a < node_top ?h'" if "a \<in> set (n # ns)" for a
      using that wfD(4) n_top by (auto simp: acc)
  qed
  then have "list_inv ?h'"
  proof (rule list_inv_step [OF inv])
    show "bases ?h' c = bases h c" if "c \<noteq> b" for c using that by (simp add: acc)
    show "node_top h \<le> node_top ?h'" by (simp add: acc)
    show "node_next (nodes ?h' a) = node_next (nodes h a) \<and>
        node_base (nodes ?h' a) = node_base (nodes h a)"
      if "node_base (nodes h a) = Some c" for a c
    proof -
      from that free have "a \<noteq> n" by auto
      then have "nxt ?h' a = nxt h a" by (simp add: acc(1))
      with \<open>a \<noteq> n\<close> show ?thesis by (simp add: acc(2) nxt_def)
    qed
  qed
  with p show ?thesis by simp
qed

lemma list_inv_AppendValue: assumes "list_inv h" shows "list_inv (snd (AppendValue p v h))"
proof (cases p)
  case None
  with assms show ?thesis by (simp add: AppendValue_def)
next
  case (Some b)
  let ?n = "fst (new_List_node h)"
  let ?h2 = "snd (SetValue (Some ?n) v (snd (new_List_node h)))"
  have inv2: "list_inv ?h2" using assms by (intro list_inv_SetValue list_inv_new)
  have "valid_ptr ?h2 (Some ?n)"
    by (simp add: valid_ptr_def top_SetValue) (simp add: new_List_node_def)
  with inv2 have "list_inv (snd (Append p (Some ?n) ?h2))" by (rule list_inv_Append)
  moreover have "snd (AppendValue p v h) = snd (Append p (Some ?n) ?h2)"
    using Some by (simp add: AppendValue_def SetValue_def split: prod.split option.split)
  ultimately show ?thesis by simp
qed

lemma list_inv_PrependValue: assumes "list_inv h" shows "list_inv (snd (PrependValue p v h))"
proof (cases p)
  case None
  with assms show ?thesis by (simp add: PrependValue_def)
next
  case (Some b)
  let ?n = "fst (new_List_node h)"
  let ?h2 = "snd (SetValue (Some ?n) v (snd (new_List_node h)))"
  have inv2: "list_inv ?h2" using assms by (intro list_inv_SetValue list_inv_new)
  have "valid_ptr ?h2 (Some ?n)"
    by (simp add: valid_ptr_def top_SetValue) (simp add: new_List_node_def)
  with inv2 have "list_inv (snd (Prepend p (Some ?n) ?h2))" by (rule list_inv_Prepend)
  moreover have "snd (PrependValue p v h) = snd (Prepend p (Some ?n) ?h2)"
    using Some by (simp add: PrependValue_def SetValue_def split: prod.split option.split)
  ultimately show ?thesis by simp
qed

lemma well_formed_pop_head:
  assumes "well_formed h b (a # as)"
  shows "well_formed (pop_head b a h) b as"
proof -
  note wfD = well_formedD [OF assms]
  from assms have "is_list (pop_head b a h) b as"
    by (simp add: well_formed_def is_list_pop_head)
  moreover from wfD(1) have "a \<notin> set as" using chain_hd_notin by auto
  ultimately show ?thesis
    using wfD(3,4) by (auto simp: well_formed_def list_all_iff nodes_pop_head rest_pop_head)
qed

lemma list_inv_pop_head:
  assumes inv: "list_inv h" and first: "base_first (bases h b) = Some a"
  shows "list_inv (pop_head b a h)"
proof -
  from inv obtain ns where wf: "well_formed h b ns" unfolding list_inv_def by blast
  from well_formedD(1) [OF wf] first obtain as where ns: "ns = a # as"
    by (auto simp: chain_Some)
  from wf ns have new: "well_formed (pop_head b a h) b as" by (simp add: well_formed_pop_head)
  have owner: "node_base (nodes h a) = Some b" using well_formedD(3) [OF wf] ns by simp
  show ?thesis
    using owner by (intro list_inv_step [OF inv new])
      (auto simp: bases_pop_head rest_pop_head nodes_pop_head)
qed

lemma list_inv_Popfirst: assumes "list_inv h" shows "list_inv (snd (Popfirst p h))"
  using assms by (auto simp: Popfirst_def list_inv_pop_head split: option.split)


text \<open>Splicing the node \<open>n\<close> out of a chain, behind its predecessor \<open>pr\<close>.\<close>

lemma chain_remove:
  assumes "chain nx x (ms @ pr # n # rest)"
  shows "chain (nx(pr := nx n, n := v)) x (ms @ pr # rest)"
  using assms
proof (induction ms arbitrary: x)
  case Nil
  then have "distinct (pr # n # rest)"
    using chain_distinct [of nx x "pr # n # rest"] by simp
  then have neq: "pr \<noteq> n" "pr \<notin> set rest" "n \<notin> set rest" by auto
  from Nil have x: "x = Some pr" and rest: "chain nx (nx n) rest" by simp_all
  let ?nx = "nx(pr := nx n, n := v)"
  have "chain ?nx (nx n) rest" using rest neq by (simp add: chain_upd_notin)
  moreover have "?nx pr = nx n" using neq by simp
  ultimately have "chain ?nx (?nx pr) rest" by simp
  with x show ?case by (simp only: append_Nil chain.simps)
next
  case (Cons m ms)
  from Cons.prems have "distinct ((m # ms) @ pr # n # rest)" by (rule chain_distinct)
  then have neq: "m \<noteq> pr" "m \<noteq> n" by auto
  from Cons.prems have x: "x = Some m" and rest: "chain nx (nx m) (ms @ pr # n # rest)"
    by simp_all
  let ?nx = "nx(pr := nx n, n := v)"
  have e: "?nx m = nx m" using neq by simp
  have "chain ?nx (nx m) (ms @ pr # rest)" by (rule Cons.IH [OF rest])
  then have "chain ?nx (?nx m) (ms @ pr # rest)" by (simp only: e)
  with x show ?case by (simp only: append_Cons chain.simps)
qed

lemma chain_next_in:
  assumes "chain nx x ns" and "a \<in> set ns" and "nx a = Some n"
  shows "n \<in> set ns"
  using assms
proof (induction ns arbitrary: x)
  case Nil
  then show ?case by simp
next
  case (Cons c cs)
  then show ?case by (cases cs) auto
qed

lemma chain_pred_unique:
  assumes "chain nx x (ms @ pr # n # rest)" and "a \<in> set (ms @ [pr])" and "nx a = Some n"
  shows "a = pr" and "a \<notin> set ms"
proof -
  have dist: "distinct (ms @ pr # n # rest)" using assms(1) by (rule chain_distinct)
  have "a \<notin> set ms"
  proof
    assume "a \<in> set ms"
    then obtain us vs where ms: "ms = us @ a # vs" by (auto simp: in_set_conv_decomp)
    with assms(1) have "chain nx (Some a) (a # vs @ pr # n # rest)"
      using chain_suffix [of nx x us a "vs @ pr # n # rest"] by simp
    with assms(3) have "chain nx (Some n) (vs @ pr # n # rest)" by simp
    then have "hd (vs @ pr # n # rest) = n" by (cases "vs @ pr # n # rest") auto
    then have "n \<in> set (vs @ [pr])" by (cases vs) auto
    with dist ms show False by auto
  qed
  then show "a \<notin> set ms" .
  with assms(2) show "a = pr" by auto
qed

lemma Remove_loop_pred:
  assumes "chain (nxt h) x (ms @ pr # n # rest)"
  shows "Remove_loop h n x = Some (Some pr)"
  using assms
proof (induction ms arbitrary: x)
  case Nil
  then have "x = Some pr" "node_next (nodes h pr) = Some n" by (simp_all add: nxt_def)
  then show ?case by (simp add: Remove_loop.simps)
next
  case (Cons m ms)
  then have x: "x = Some m" and rest: "chain (nxt h) (nxt h m) (ms @ pr # n # rest)" by simp_all
  have "nxt h m \<noteq> Some n"
    using chain_pred_unique(2) [OF Cons.prems, of m] by auto
  then have "Remove_loop h n x = Remove_loop h n (nxt h m)"
    using x by (subst Remove_loop.simps) (simp add: nxt_def)
  with Cons.IH [OF rest] show ?case by simp
qed

lemma Remove_loop_absent:
  assumes "chain (nxt h) x ns" and "n \<notin> set ns"
  shows "Remove_loop h n x = Some None"
  using assms
proof (induction ns arbitrary: x)
  case Nil
  then show ?case by (simp add: Remove_loop.simps)
next
  case (Cons a as)
  then have x: "x = Some a" and rest: "chain (nxt h) (nxt h a) as" by simp_all
  have "nxt h a \<noteq> Some n"
    using chain_next_in [OF Cons.prems(1), of a n] Cons.prems(2) by auto
  then have "Remove_loop h n x = Remove_loop h n (nxt h a)"
    using x by (subst Remove_loop.simps) (simp add: nxt_def)
  with Cons.IH [OF rest] Cons.prems(2) show ?case by simp
qed

lemma Poplast_loop_pred:
  assumes "chain (nxt h) x (ms @ [q, l])" and "base_last (bases h b) = Some l"
  shows "Poplast_loop h b x = Some (Some q)"
  using assms(1)
proof (induction ms arbitrary: x)
  case Nil
  then have "x = Some q" "node_next (nodes h q) = Some l" by (simp_all add: nxt_def)
  then show ?case using assms(2) by (simp add: Poplast_loop.simps)
next
  case (Cons m ms)
  then have x: "x = Some m" and rest: "chain (nxt h) (nxt h m) (ms @ [q, l])" by simp_all
  have "nxt h m \<noteq> Some l"
    using chain_pred_unique(2) [of "nxt h" x "m # ms" q l "[]" m] Cons.prems by auto
  then have "Poplast_loop h b x = Poplast_loop h b (nxt h m)"
    using x assms(2) by (subst Poplast_loop.simps) (simp add: nxt_def)
  with Cons.IH [OF rest] show ?case by simp
qed


lemma chain_last_next: "chain nx x (as @ [l]) \<Longrightarrow> nx l = None"
  by (induction as arbitrary: x) auto

text \<open>The heap after a node n has been spliced out behind its predecessor pr.\<close>

lemma splice_facts:
  shows "nxt (snd (unlink (Some n) (upd_base b f (upd_node pr (\<lambda>x. x\<lparr>node_next := v\<rparr>) h)))) = (nxt h)(pr := v, n := None)"
    and "\<And>a. node_base (nodes (snd (unlink (Some n) (upd_base b f (upd_node pr (\<lambda>x. x\<lparr>node_next := v\<rparr>) h)))) a) =
           (if a = n then None else node_base (nodes h a))"
    and "bases (snd (unlink (Some n) (upd_base b f (upd_node pr (\<lambda>x. x\<lparr>node_next := v\<rparr>) h)))) = (bases h)(b := f (bases h b))"
    and "node_top (snd (unlink (Some n) (upd_base b f (upd_node pr (\<lambda>x. x\<lparr>node_next := v\<rparr>) h)))) = node_top h"
  by (auto simp: nxt_def unlink_def upd_node_def upd_base_def Let_def fun_eq_iff)

lemma list_inv_splice:
  fixes h :: "'v heap"
  assumes inv: "list_inv h" and wf: "well_formed h b (ms @ pr # n # rest)"
    and f: "base_last (f (bases h b)) = (if rest = [] then Some pr else base_last (bases h b))"
      "base_first (f (bases h b)) = base_first (bases h b)"
  shows "list_inv (snd (unlink (Some n)
    (upd_base b f (upd_node pr (\<lambda>x. x\<lparr>node_next := nxt h n\<rparr>) h))))"
proof -
  let ?h' = "snd (unlink (Some n)
    (upd_base b f (upd_node pr (\<lambda>x. x\<lparr>node_next := nxt h n\<rparr>) h)))"
  note facts = splice_facts [where n = n and b = b and f = f and pr = pr and v = "nxt h n" and h = h]
  note wfD = well_formedD [OF wf]
  have dist: "distinct (ms @ pr # n # rest)" using wfD(1) by (rule chain_distinct)
  have "well_formed ?h' b (ms @ pr # rest)"
  proof (rule well_formedI)
    have "chain ((nxt h)(pr := nxt h n, n := None)) (base_first (bases h b)) (ms @ pr # rest)"
      using wfD(1) by (rule chain_remove)
    then show "chain (nxt ?h') (base_first (bases ?h' b)) (ms @ pr # rest)"
      by (simp add: facts f)
    show "base_last (bases ?h' b) = last_of (ms @ pr # rest)"
      using wfD(2) by (simp add: facts f last_of_def)
    show "node_base (nodes ?h' a) = Some b" if "a \<in> set (ms @ pr # rest)" for a
      using that wfD(3) [of a] dist by (auto simp: facts)
    show "a < node_top ?h'" if "a \<in> set (ms @ pr # rest)" for a
      using that wfD(4) [of a] by (auto simp: facts)
  qed
  then show ?thesis
  proof (rule list_inv_step [OF inv])
    show "bases ?h' c = bases h c" if "c \<noteq> b" for c using that by (simp add: facts)
    show "node_top h \<le> node_top ?h'" by (simp add: facts)
    show "node_next (nodes ?h' a) = node_next (nodes h a) \<and>
        node_base (nodes ?h' a) = node_base (nodes h a)"
      if "node_base (nodes h a) = Some c" "c \<noteq> b" for a c
    proof -
      from that wfD(3) [of a] have "a \<noteq> pr" "a \<noteq> n" by auto
      then have "nxt ?h' a = nxt h a" and "node_base (nodes ?h' a) = node_base (nodes h a)"
        by (simp_all add: facts)
      then show ?thesis by (simp add: nxt_def)
    qed
  qed
qed

lemma list_inv_Poplast:
  fixes h :: "'v heap"
  assumes inv: "list_inv h"
  shows "\<exists>r h'. Poplast p h = Some (r, h') \<and> list_inv h'"
proof (cases p)
  case None
  with inv show ?thesis by (simp add: Poplast_def)
next
  case (Some b)
  from inv obtain ns where wf: "well_formed h b ns" unfolding list_inv_def by blast
  note wfD = well_formedD [OF wf]
  show ?thesis
  proof (cases ns)
    case Nil
    with wfD(1) have "base_first (bases h b) = None" by simp
    with inv Some show ?thesis by (simp add: Poplast_def)
  next
    case (Cons a as)
    with wfD have first: "base_first (bases h b) = Some a"
      and last: "base_last (bases h b) = Some (last ns)"
      by (simp_all add: last_of_def)
    have a_notin: "a \<notin> set as" using wfD(1) Cons chain_hd_notin by auto
    show ?thesis
    proof (cases "as = []")
      case True
      let ?h' = "snd (unlink (Some a) (upd_base b (\<lambda>x. x\<lparr>base_last := None\<rparr>)
        (upd_base b (\<lambda>x. x\<lparr>base_first := None\<rparr>) h)))"
      have res: "Poplast p h = Some ((Some a, None), ?h')"
        using Some first last Cons True by (simp add: Poplast_def Let_def)
      have "well_formed ?h' b []"
        by (simp add: well_formed_def is_list_def last_of_def unlink_def upd_base_def
            upd_node_def Let_def)
      then have "list_inv ?h'"
      proof (rule list_inv_step [OF inv])
        show "bases ?h' c = bases h c" if "c \<noteq> b" for c
          using that by (simp add: unlink_def upd_base_def upd_node_def Let_def)
        show "node_top h \<le> node_top ?h'"
          by (simp add: unlink_def upd_base_def upd_node_def Let_def)
        show "node_next (nodes ?h' x) = node_next (nodes h x) \<and>
            node_base (nodes ?h' x) = node_base (nodes h x)"
          if "node_base (nodes h x) = Some c" "c \<noteq> b" for x c
        proof -
          from that wfD(3) [of a] Cons have "x \<noteq> a" by auto
          then show ?thesis by (simp add: unlink_def upd_base_def upd_node_def Let_def)
        qed
      qed
      with res show ?thesis by blast
    next
      case False
      then obtain bs l where as: "as = bs @ [l]" by (meson rev_exhaust)
      obtain ms q where front: "a # bs = ms @ [q]" by (cases "a # bs" rule: rev_cases) auto
      with Cons as have ns: "ns = ms @ [q, l]" by simp
      have l: "last ns = l" using ns by simp
      have "l \<noteq> a" using a_notin as by auto
      then have neq: "base_last (bases h b) \<noteq> base_first (bases h b)"
        using first last l by simp
      have loop: "Poplast_loop h b (base_first (bases h b)) = Some (Some q)"
      proof (rule Poplast_loop_pred)
        show "chain (nxt h) (base_first (bases h b)) (ms @ [q, l])" using wfD(1) ns by simp
        show "base_last (bases h b) = Some l" using last l by simp
      qed
      let ?h' = "snd (unlink (Some l) (upd_base b (\<lambda>x. x\<lparr>base_last := Some q\<rparr>)
        (upd_node q (\<lambda>x. x\<lparr>node_next := None\<rparr>) h)))"
      have res: "Poplast p h = Some ((Some l, None), ?h')"
        using Some first last l neq loop by (simp add: Poplast_def Let_def upd_base_def upd_node_def)
      have tl_nil: "nxt h l = None"
        using wfD(1) ns chain_last_next [of "nxt h" _ "ms @ [q]" l] by simp
      have "list_inv (snd (unlink (Some l) (upd_base b (\<lambda>x. x\<lparr>base_last := Some q\<rparr>)
        (upd_node q (\<lambda>x. x\<lparr>node_next := nxt h l\<rparr>) h))))"
        using wf unfolding ns by (intro list_inv_splice [OF inv, where ms = ms and rest = "[]"]) simp_all
      then have "list_inv ?h'" by (simp only: tl_nil)
      with res show ?thesis by blast
    qed
  qed
qed


lemma list_inv_Remove:
  fixes h :: "'v heap"
  assumes inv: "list_inv h"
  shows "\<exists>r h'. Remove p q h = Some (r, h') \<and> list_inv h'"
proof (cases "\<exists>b n f l. p = Some b \<and> q = Some n \<and> base_first (bases h b) = Some f \<and>
    base_last (bases h b) = Some l \<and> node_base (nodes h n) = Some b")
  case False
  then have "\<exists>r. Remove p q h = Some (r, h)"
    by (cases p; cases q; cases "base_first (bases h (the p))"; cases "base_last (bases h (the p))")
      (auto simp: Remove_def)
  with inv show ?thesis by blast
next
  case True
  then obtain b n f l where p: "p = Some b" and q: "q = Some n"
    and first: "base_first (bases h b) = Some f" and last: "base_last (bases h b) = Some l"
    and owner: "node_base (nodes h n) = Some b" by blast
  from inv obtain ns where wf: "well_formed h b ns" unfolding list_inv_def by blast
  note wfD = well_formedD [OF wf]
  show ?thesis
  proof (cases "f = n")
    case True
    then have "Remove p q h = Some ((Some n, None), pop_head b n h)"
      using p q first last owner by (simp add: Remove_def)
    moreover have "list_inv (pop_head b n h)"
      using inv first True by (simp add: list_inv_pop_head)
    ultimately show ?thesis by blast
  next
    case False
    show ?thesis
    proof (cases "n \<in> set ns")
      case False
      with wfD(1) have "Remove_loop h n (base_first (bases h b)) = Some None"
        by (rule Remove_loop_absent)
      then have "Remove p q h = Some ((None, Some (New ''List_base::Remove: pnode == nil'')), h)"
        using p q first last owner \<open>f \<noteq> n\<close> by (simp add: Remove_def)
      with inv show ?thesis by blast
    next
      case True
      then obtain us rest where us: "ns = us @ n # rest" by (auto simp: in_set_conv_decomp)
      have "us \<noteq> []" using us wfD(1) first \<open>f \<noteq> n\<close> by (cases us) auto
      then obtain ms pr where "us = ms @ [pr]" by (cases us rule: rev_cases) auto
      with us have ns: "ns = ms @ pr # n # rest" by simp
      have dist: "distinct (ms @ pr # n # rest)" using wfD(1) ns chain_distinct by blast
      have loop: "Remove_loop h n (base_first (bases h b)) = Some (Some pr)"
        using wfD(1) unfolding ns by (rule Remove_loop_pred)
      let ?f = "\<lambda>x. if l = n then x\<lparr>base_last := Some pr\<rparr> else x"
      let ?h' = "snd (unlink (Some n) (upd_base b ?f
        (upd_node pr (\<lambda>x. x\<lparr>node_next := nxt h n\<rparr>) h)))"
      have res: "Remove p q h = Some ((Some n, None), ?h')"
        using p q first last owner \<open>f \<noteq> n\<close> loop
        by (simp add: Remove_def Let_def nxt_def upd_base_def upd_node_def)
      have l: "l = last ns" using wfD(2) last by (auto simp: last_of_def split: if_splits)
      have "list_inv ?h'"
      proof (rule list_inv_splice [OF inv])
        show "well_formed h b (ms @ pr # n # rest)" using wf ns by simp
        show "base_last (?f (bases h b)) = (if rest = [] then Some pr else base_last (bases h b))"
          using dist l ns last by (cases rest rule: rev_cases) auto
        show "base_first (?f (bases h b)) = base_first (bases h b)" by simp
      qed
      with res show ?thesis by blast
    qed
  qed
qed

lemma list_inv_Clear:
  fixes h :: "'v heap"
  assumes inv: "list_inv h"
  shows "\<exists>e h'. Clear p h = Some (e, h') \<and> list_inv h'"
proof (cases p)
  case None
  with inv show ?thesis by (simp add: Clear_def)
next
  case (Some b)
  from inv obtain ns where wf: "well_formed h b ns" unfolding list_inv_def by blast
  note wfD = well_formedD [OF wf]
  have il: "is_list h b ns" using wf by (simp add: well_formed_def)
  show ?thesis
  proof (cases ns)
    case Nil
    with wfD(1) have "base_first (bases h b) = None" by simp
    with inv Some show ?thesis by (simp add: Clear_def)
  next
    case (Cons a as)
    with wfD have first: "base_first (bases h b) = Some a"
      and last: "base_last (bases h b) = Some (last ns)"
      by (simp_all add: last_of_def)
    from Clear_loop_list [OF il] obtain h' where h': "Clear_loop b h = Some h'" "is_list h' b []"
      "\<forall>a. a \<notin> set ns \<longrightarrow> nodes h' a = nodes h a"
      "\<forall>c. c \<noteq> b \<longrightarrow> bases h' c = bases h c" "node_top h' = node_top h"
      by blast
    have res: "Clear p h = Some (None, h')"
      using Some first last h'(1) by (simp add: Clear_def)
    have "well_formed h' b []" using h'(2) by (simp add: well_formed_def)
    then have "list_inv h'"
    proof (rule list_inv_step [OF inv])
      show "bases h' c = bases h c" if "c \<noteq> b" for c using that h'(4) by simp
      show "node_top h \<le> node_top h'" using h'(5) by simp
      show "node_next (nodes h' x) = node_next (nodes h x) \<and>
          node_base (nodes h' x) = node_base (nodes h x)"
        if "node_base (nodes h x) = Some c" "c \<noteq> b" for x c
      proof -
        from that wfD(3) [of x] have "x \<notin> set ns" by auto
        with h'(3) show ?thesis by simp
      qed
    qed
    with res show ?thesis by blast
  qed
qed

lemma chain_linked:
  assumes "linked h x n" and "chain (nxt h) x ns"
  shows "n \<in> set ns"
  using assms
proof (induction arbitrary: ns rule: linked.induct)
  case (linked_here n)
  then show ?case by (auto simp: chain_Some)
next
  case (linked_next a n)
  then show ?case by (auto simp: chain_Some nxt_def)
qed

lemma list_inv_iters:
  assumes "list_inv h" and "nodes h' = nodes h" and "bases h' = bases h"
    and "node_top h' = node_top h"
  shows "list_inv h'"
  unfolding list_inv_def
proof
  fix c
  from assms(1) obtain ns where wf: "well_formed h c ns" unfolding list_inv_def by blast
  have "well_formed h' c ns"
    by (rule well_formed_frame [OF wf]) (simp_all add: assms)
  then show "\<exists>ns. well_formed h' c ns" ..
qed

lemma list_inv_Init: "list_inv h \<Longrightarrow> list_inv (snd (Init i p h))"
  by (erule list_inv_iters) (simp_all add: Init_def upd_iter_def Let_def split: option.split)

lemma list_inv_Restart: "list_inv h \<Longrightarrow> list_inv (snd (Restart i h))"
  by (erule list_inv_iters) (simp_all add: Restart_def upd_iter_def Let_def split: option.split)

lemma list_inv_Next: "list_inv h \<Longrightarrow> list_inv (snd (Next i h))"
  by (erule list_inv_iters) (simp_all add: Next_def upd_iter_def Let_def split: option.split)

lemma reachable_list_inv: "reachable h \<Longrightarrow> list_inv h"
proof (induction rule: reachable.induct)
  case r_init
  show ?case by (rule list_inv_heap0)
next
  case (r_Poplast h p r h')
  with list_inv_Poplast [of h p] show ?case by auto
next
  case (r_Remove h p q r h')
  with list_inv_Remove [of h p q] show ?case by auto
next
  case (r_Clear h p e h')
  with list_inv_Clear [of h p] show ?case by auto
qed (simp_all add: list_inv_new list_inv_SetValue list_inv_Append list_inv_AppendValue
    list_inv_Prepend list_inv_PrependValue list_inv_Popfirst list_inv_Init list_inv_Restart
    list_inv_Next)

text \<open>On a reachable heap the three methods with a scan or a loop that changes the heap
  return.\<close>

lemma reachable_returns:
  assumes "reachable h"
  shows "\<exists>r h'. Poplast p h = Some (r, h')" and "\<exists>r h'. Remove p q h = Some (r, h')"
    and "\<exists>e h'. Clear p h = Some (e, h')"
  using reachable_list_inv [OF assms] list_inv_Poplast [of h p] list_inv_Remove [of h p q]
    list_inv_Clear [of h p] by blast+

text \<open>
  C5: in every heap that the exported methods can produce from zero-valued structs, whatever
  the receivers, arguments and order of the calls, every node met by following
  \<^verbatim>\<open>next\<close> from \<^verbatim>\<open>first\<close> of a list base \<open>b\<close> has its base
  pointer equal to \<open>b\<close>.
\<close>

theorem reachable_owned:
  assumes "reachable h" and "linked h (base_first (bases h b)) n"
  shows "node_base (nodes h n) = Some b"
proof -
  from assms(1) have "list_inv h" by (rule reachable_list_inv)
  then obtain ns where wf: "well_formed h b ns" unfolding list_inv_def by blast
  from assms(2) well_formedD(1) [OF wf] have "n \<in> set ns" by (rule chain_linked)
  then show ?thesis by (rule well_formedD(3) [OF wf])
qed

text \<open>The second node of the list built by appending \<^verbatim>\<open>"a"\<close> and
  \<^verbatim>\<open>"b"\<close>.\<close>

theorem reachable_owned_witness:
  "reachable (list_ab 0) \<and> linked (list_ab 0) (base_first (bases (list_ab 0) 0)) 1 \<and>
   node_base (nodes (list_ab 0) 1) = Some 0"
proof -
  have "list_ab 0 = snd (AppendValue (Some 0) (Some ''b'')
      (snd (AppendValue (Some 0) (Some ''a'') heap0)))"
    by (simp add: list_ab_def split: prod.split)
  then have r: "reachable (list_ab 0)"
    by (simp add: r_init r_AppendValue)
  have first: "base_first (bases (list_ab 0) 0) = Some 0"
    and nx: "node_next (nodes (list_ab 0) 0) = Some 1"
    by (simp_all add: list_ab_def heap_simps)
  have "linked (list_ab 0) (Some 1) 1" by (rule linked_here)
  then have "linked (list_ab 0) (Some 0) 1" using nx by (intro linked_next) simp
  then have l: "linked (list_ab 0) (base_first (bases (list_ab 0) 0)) 1" using first by simp
  show ?thesis using r l reachable_owned [OF r l] by simp
qed

end
